theory Spec2Isabelle
  imports Main
begin

section \<open>Shared utilities\<close>

text \<open>
  JavaScript numbers are modelled as \<open>int\<close>: every number the windowing and pagination
  code handles is an index or a count. A read \<open>source[index]\<close> of a JavaScript array
  yields \<open>undefined\<close> outside \<open>0 .. length - 1\<close>; \<open>undefined\<close> is \<open>None\<close>.
\<close>

text \<open>
  A JavaScript number is a double. On the safe integers, those of magnitude at most
  \<open>2^53 - 1\<close> (\<open>Number.MAX_SAFE_INTEGER\<close>, \<open>Number.isSafeInteger\<close>), sums, differences and
  products with a safe result and \<open>Math.floor(a / b)\<close> are computed without rounding, and
  there \<open>int\<close> is what the code computes. Beyond them the code rounds and \<open>int\<close> does
  not, so a statement about indices of any magnitude is stated for safe integers.
\<close>

definition MAX_SAFE_INTEGER :: int where
  "MAX_SAFE_INTEGER = 2 ^ 53 - 1"

definition isSafeInteger :: "int \<Rightarrow> bool" where
  "isSafeInteger n \<longleftrightarrow> - MAX_SAFE_INTEGER \<le> n \<and> n \<le> MAX_SAFE_INTEGER"

definition at_index :: "'a list \<Rightarrow> int \<Rightarrow> 'a option" where
  "at_index source index =
     (if 0 \<le> index \<and> index < int (length source) then Some (source ! nat index) else None)"

text \<open>
  Modelled from the spec: \<open>range\<close> of \<open>utils/utils\<close> is imported by both modules but its
  file is not part of the sources. The spec uses \<open>range(start - radius, start - 1)\<close> for the
  \<open>radius\<close> positions left of the centre, so \<open>range a b\<close> is the ascending list of the
  integers from \<open>a\<close> to \<open>b\<close>, both included, and is empty for \<open>b = a - 1\<close>.
\<close>

definition range_list :: "int \<Rightarrow> int \<Rightarrow> int list" where
  "range_list a b = [a..b]"

text \<open>
  Modelled from the spec: \<open>rewind\<close> of \<open>utils/utils\<close> is not part of the sources. The spec
  describes \<open>rewind(currentIndex + sign, totalItems - 1)\<close> as the circular step that wraps
  \<open>totalItems - 1 + 1\<close> to \<open>0\<close> and \<open>0 - 1\<close> to \<open>totalItems - 1\<close>.
\<close>

definition rewind :: "int \<Rightarrow> int \<Rightarrow> int" where
  "rewind index edge = (if index > edge then 0 else if index < 0 then edge else index)"

section \<open>Circular sliding window (utils/sliding-window.ts)\<close>

definition get :: "'a list \<Rightarrow> int \<Rightarrow> 'a option" where
  "get source index =
     (if length source = 0 then None
      else
        let isOutOfLowerBounds = index < 0;
            isOutOfUpperBounds = index > int (length source) - 1;
            isOutOfBounds = isOutOfLowerBounds \<or> isOutOfUpperBounds;
            sign = (if isOutOfUpperBounds then - 1 else 1);
            multiple = max (\<bar>index\<bar> div int (length source)) 1;
            index' = (if isOutOfBounds then index + sign * multiple * int (length source)
                      else index)
        in at_index source index')"

definition slidingWindow :: "'a list \<Rightarrow> int \<Rightarrow> int \<Rightarrow> 'a option list" where
  "slidingWindow source start sz =
     (let left = map (\<lambda>index. get source index) (range_list (start - sz) (start - 1));
          center = [at_index source start];
          right = map (\<lambda>index. get source index) (range_list (start + 1) (start + sz));
          window = left @ center @ right
      in window)"

section \<open>Pagination index mapper (pagination.ts)\<close>

definition mapActiveIndex :: "int \<Rightarrow> int \<Rightarrow> int \<Rightarrow> int \<Rightarrow> int" where
  "mapActiveIndex index center bullets total' =
     (if bullets \<ge> total' then index
      else index - max (index - center) 0 + max (index - (- 1 + total' - center)) 0)"

definition isEdgeBullet :: "int \<Rightarrow> int \<Rightarrow> int \<Rightarrow> int \<Rightarrow> bool" where
  "isEdgeBullet index realIndex bullets total' =
     (let isRightEdge = (index = bullets - 1)
      in if index = 0 then index \<noteq> realIndex
         else if isRightEdge then realIndex + 1 < total'
         else False)"

definition getRealIndex :: "int \<Rightarrow> int \<Rightarrow> int \<Rightarrow> int" where
  "getRealIndex index currentIndex activeBulletIndex = currentIndex - activeBulletIndex + index"

subsection \<open>The bullet elements\<close>

text \<open>
  A bullet is a \<open>span\<close> element of the document. The model keeps what the class writes to
  it: the two marker classes and the horizontal translation, plus the identity of the
  element (\<open>elem\<close>), so that removing one element and inserting another can be told apart.
\<close>

record bullet =
  elem :: nat
  activeClass :: bool
  edgeClass :: bool
  translateX :: "int option"

text \<open>An optional boolean argument: \<open>None\<close> is \<open>undefined\<close>, which negates to true.\<close>

definition js_not :: "bool option \<Rightarrow> bool" where
  "js_not v = (case v of None \<Rightarrow> True | Some b \<Rightarrow> \<not> b)"

text \<open>
  Modelled from the spec: \<open>addOrRemoveClass\<close>, \<open>createElement\<close>, \<open>append\<close>, \<open>prepend\<close>,
  \<open>remove\<close> and \<open>each\<close> of \<open>utils/dom\<close> are not part of the sources. The spec has every
  kept slot recompute its edge flag and its active flag, and \<open>_setAttributes\<close> passes the
  negated flag as the third argument, so \<open>addOrRemoveClass\<close> leaves the class present
  exactly when that argument is false. \<open>createElement\<close> returns a new element without marker
  class or transform; \<open>append\<close> and \<open>prepend\<close> add a child at the end and at the start;
  \<open>remove\<close> detaches the element; \<open>each\<close> visits the selected elements in order with their
  position in the selection.
\<close>

definition addOrRemoveClass :: "bool \<Rightarrow> bool" where
  "addOrRemoveClass remove = (\<not> remove)"

definition createElement :: "nat \<Rightarrow> bullet" where
  "createElement e = \<lparr>elem = e, activeClass = False, edgeClass = False, translateX = None\<rparr>"

subsection \<open>The Pagination class\<close>

datatype error = TypeError

text \<open>
  \<open>ref\<close> is the list of \<open>span\<close> children of the element \<open>_ref\<close>, \<open>None\<close> when \<open>_ref\<close> is
  \<open>null\<close>. \<open>attached\<close> records that \<open>render\<close> appended \<open>_ref\<close> to the container, and
  \<open>nextElem\<close> is the number of elements created so far, which names the next one.
\<close>

record pagination =
  ref :: "bullet list option"
  currentIndex :: int
  centerIndex :: int
  bulletsLength :: int
  diameter :: int
  isActive :: bool
  totalSlides :: int
  attached :: bool
  nextElem :: nat

record options =
  opt_diameter :: "int option"
  opt_bullets :: "int option"
  opt_isActive :: "bool option"

text \<open>
  The constructor: \<open>found\<close> is what \<open>querySelector\<close> finds in the container (\<open>None\<close> when
  there is no pagination element yet) and \<open>created\<close> the number of elements created before.
\<close>

definition constructor :: "bullet list option \<Rightarrow> nat \<Rightarrow> int \<Rightarrow> options \<Rightarrow> pagination" where
  "constructor found created totalSlides' opts =
     (let bulletsLength' = min totalSlides' (case opt_bullets opts of None \<Rightarrow> 5 | Some b \<Rightarrow> b)
      in \<lparr>ref = found,
          currentIndex = 0,
          centerIndex = bulletsLength' div 2,
          bulletsLength = bulletsLength',
          diameter = (case opt_diameter opts of None \<Rightarrow> 16 | Some d \<Rightarrow> d),
          isActive = (case opt_isActive opts of None \<Rightarrow> True | Some a \<Rightarrow> a),
          totalSlides = totalSlides',
          attached = False,
          nextElem = created\<rparr>)"

definition setAttributes :: "bullet \<Rightarrow> bool option \<Rightarrow> bool option \<Rightarrow> int option \<Rightarrow> bullet" where
  "setAttributes b isActive' isEdge position =
     (let b1 = b\<lparr>activeClass := addOrRemoveClass (js_not isActive')\<rparr>;
          b2 = b1\<lparr>edgeClass := addOrRemoveClass (js_not isEdge)\<rparr>
      in case position of None \<Rightarrow> b2 | Some x \<Rightarrow> b2\<lparr>translateX := Some x\<rparr>)"

definition renderBullet :: "pagination \<Rightarrow> nat \<Rightarrow> int \<Rightarrow> bool option \<Rightarrow> bool option \<Rightarrow> bullet" where
  "renderBullet p e index isActive' isEdge =
     (let element = createElement e
      in setAttributes element isActive' isEdge (Some (index * diameter p)))"

text \<open>
  \<open>render\<close>: the early return only clears \<open>isActive\<close>. Otherwise a new \<open>div\<close> (element
  \<open>nextElem\<close>) becomes \<open>_ref\<close>, one bullet per index of the range is appended to it, and it
  is appended to the container. The width and height written to the \<open>div\<close> are not kept.
\<close>

definition render :: "pagination \<Rightarrow> pagination" where
  "render p =
     (if \<not> isActive p \<or> totalSlides p < 2 then p\<lparr>isActive := False\<rparr>
      else
        let indices = range_list 0 (min (bulletsLength p) (totalSlides p) - 1);
            spans = map (\<lambda>(k, index).
                      let isEdge = isEdgeBullet index index (bulletsLength p) (totalSlides p)
                      in renderBullet p (nextElem p + 1 + k) index
                           (Some (index = currentIndex p)) (Some isEdge))
                    (enumerate 0 indices)
        in p\<lparr>ref := Some spans, attached := True,
             nextElem := nextElem p + 1 + length indices\<rparr>)"

text \<open>\<open>_handleBulletMovement\<close>: \<open>None\<close> when the bullet is removed from the document.\<close>

definition handleBulletMovement ::
    "pagination \<Rightarrow> bullet \<Rightarrow> int \<Rightarrow> int \<Rightarrow> int \<Rightarrow> int \<Rightarrow> bullet option" where
  "handleBulletMovement p b index activeIndex sign removeBulletIndex =
     (if removeBulletIndex = index then None
      else
        let index' = index - (if removeBulletIndex > - 1 then sign else 0);
            realIndex = getRealIndex index' (currentIndex p) activeIndex;
            isEdge = isEdgeBullet index' realIndex (bulletsLength p) (totalSlides p)
        in Some (setAttributes b (Some (index' = activeIndex)) (Some isEdge)
                  (if removeBulletIndex > - 1 then Some (index' * diameter p) else None)))"

text \<open>
  \<open>_goTo\<close>: \<open>_currentIndex\<close> is assigned first; reading the spans of a \<open>null\<close> \<open>_ref\<close>
  throws. The selection of spans is taken once, before any bullet is removed.
\<close>

definition goTo :: "int \<Rightarrow> pagination \<Rightarrow> error + pagination" where
  "goTo sign p0 =
     (if \<not> isActive p0 then Inr p0
      else
        let p = p0\<lparr>currentIndex := rewind (currentIndex p0 + sign) (totalSlides p0 - 1)\<rparr>;
            mappedActiveIndex =
              mapActiveIndex (currentIndex p) (centerIndex p) (bulletsLength p) (totalSlides p);
            overflowRight =
              (currentIndex p + centerIndex p + (if sign > 0 then 0 else 1) < totalSlides p);
            overflowLeft = (currentIndex p - centerIndex p > 0);
            removeBullet = (mappedActiveIndex = centerIndex p
                            \<and> (if sign > 0 then overflowLeft else overflowRight));
            removeBulletIndex =
              (if removeBullet then (if sign = 1 then 0 else bulletsLength p - 1) else - 1)
        in case ref p of
             None \<Rightarrow> Inl TypeError
           | Some spans \<Rightarrow>
               let moved = List.map_filter
                     (\<lambda>(index, b). handleBulletMovement p b (int index) mappedActiveIndex
                                      sign removeBulletIndex)
                     (enumerate 0 spans)
               in if removeBullet then
                    let insertBulletIndex = - 1 + bulletsLength p - removeBulletIndex;
                        realIndex = getRealIndex insertBulletIndex (currentIndex p) mappedActiveIndex;
                        isEdge = isEdgeBullet insertBulletIndex realIndex
                                   (bulletsLength p) (totalSlides p);
                        b = renderBullet p (nextElem p) insertBulletIndex None (Some isEdge)
                    in Inr (p\<lparr>ref := Some (if sign = 1 then moved @ [b] else b # moved),
                              nextElem := nextElem p + 1\<rparr>)
                  else Inr (p\<lparr>ref := Some moved\<rparr>))"

definition pagination_next :: "pagination \<Rightarrow> error + pagination" where
  "pagination_next p = goTo 1 p"

definition pagination_prev :: "pagination \<Rightarrow> error + pagination" where
  "pagination_prev p = goTo (- 1) p"

text \<open>A sequence of \<open>next\<close> (\<open>True\<close>) and \<open>prev\<close> (\<open>False\<close>) calls, stopping at the first error.\<close>

fun calls :: "bool list \<Rightarrow> pagination \<Rightarrow> error + pagination" where
  "calls [] p = Inr p"
| "calls (c # cs) p =
     (case (if c then pagination_next p else pagination_prev p) of
        Inl e \<Rightarrow> Inl e
      | Inr p' \<Rightarrow> calls cs p')"

text \<open>
  The states of a pagination over \<open>total\<close> slides built with the options \<open>opts\<close>: the
  rendered state, and every state a \<open>next\<close> or \<open>prev\<close> call leaves.
\<close>

inductive reachable :: "int \<Rightarrow> options \<Rightarrow> pagination \<Rightarrow> bool" for total' :: int and opts :: options where
  rendered: "reachable total' opts (render (constructor found created total' opts))"
| after_next: "reachable total' opts p \<Longrightarrow> pagination_next p = Inr p' \<Longrightarrow> reachable total' opts p'"
| after_prev: "reachable total' opts p \<Longrightarrow> pagination_prev p = Inr p' \<Longrightarrow> reachable total' opts p'"

text \<open>
  The real indices the strip represents: slot \<open>i\<close> of the spans stands for
  \<open>getRealIndex i currentIndex activeSlot\<close>, with the active slot given by \<open>mapActiveIndex\<close>,
  as \<open>_handleBulletMovement\<close> computes it for each span.
\<close>

definition activeSlot :: "pagination \<Rightarrow> int" where
  "activeSlot p = mapActiveIndex (currentIndex p) (centerIndex p) (bulletsLength p) (totalSlides p)"

definition realIndices :: "pagination \<Rightarrow> int list" where
  "realIndices p =
     (case ref p of
        None \<Rightarrow> []
      | Some spans \<Rightarrow>
          map (\<lambda>i. getRealIndex (int i) (currentIndex p) (activeSlot p)) [0..<length spans])"

text \<open>
  The invariant of the states reached by \<open>render\<close>, \<open>next\<close> and \<open>prev\<close>: the centre slot
  and the strip length are as the constructor computed them and, while the pagination is
  active, the current index is a slide index, \<open>_ref\<close> is an element and, for a strip of at
  least one slot, it holds exactly \<open>bulletsLength\<close> distinct bullets, all created earlier.
\<close>

definition strip_ok :: "pagination \<Rightarrow> bool" where
  "strip_ok p \<longleftrightarrow>
     centerIndex p = bulletsLength p div 2 \<and> bulletsLength p \<le> totalSlides p
     \<and> (isActive p \<longrightarrow>
          0 \<le> currentIndex p \<and> currentIndex p < totalSlides p
          \<and> (\<exists>spans. ref p = Some spans
                \<and> (1 \<le> bulletsLength p \<longrightarrow>
                      int (length spans) = bulletsLength p
                      \<and> distinct (map elem spans)
                      \<and> (\<forall>e \<in> set (map elem spans). e < nextElem p))))"

section \<open>Properties of the sliding window\<close>

lemma at_index_Some: "0 \<le> i \<Longrightarrow> i < int (length source) \<Longrightarrow> at_index source i = Some (source ! nat i)"
  by (simp add: at_index_def)

lemma at_index_neg: "i < 0 \<Longrightarrow> at_index source i = None"
  by (simp add: at_index_def)

lemma get_in_range:
  assumes "0 \<le> index" "index < int (length source)"
  shows "get source index = at_index source index"
  using assms by (auto simp: get_def Let_def)

lemma get_above:
  assumes "source \<noteq> []" "int (length source) \<le> index"
  shows "get source index = at_index source (index mod int (length source))"
proof -
  let ?n = "int (length source)"
  have n: "0 < ?n" using assms(1) by simp
  have "0 < index div ?n" using assms(2) n
    by (simp only: pos_imp_zdiv_pos_iff)
  then have m: "max (\<bar>index\<bar> div ?n) 1 = index div ?n" using assms(2) n by simp
  have "index - (index div ?n) * ?n = index mod ?n"
    by (simp add: minus_div_mult_eq_mod)
  then show ?thesis using assms n m by (simp add: get_def Let_def)
qed

lemma get_below:
  assumes "source \<noteq> []" "index < 0"
  shows "get source index =
    at_index source (index + max (\<bar>index\<bar> div int (length source)) 1 * int (length source))"
  using assms by (simp add: get_def Let_def)

lemma get_one_below:
  assumes "source \<noteq> []" "- int (length source) \<le> index" "index < 0"
  shows "get source index = at_index source (index mod int (length source))"
proof -
  let ?n = "int (length source)"
  have n: "0 < ?n" using assms(1) by simp
  have m: "max (\<bar>index\<bar> div ?n) 1 = 1"
  proof (cases "index = - ?n")
    case True then show ?thesis using n by simp
  next
    case False
    then have "\<bar>index\<bar> < ?n" using assms by simp
    then have "\<bar>index\<bar> div ?n = 0" by simp
    then show ?thesis by simp
  qed
  have "index mod ?n = (index + ?n) mod ?n" by simp
  also have "\<dots> = index + ?n" using assms n by (intro mod_pos_pos_trivial) auto
  finally show ?thesis using assms m by (simp add: get_below)
qed

lemma get_wraps:
  assumes "source \<noteq> []" "- int (length source) \<le> index"
  shows "get source index = Some (source ! nat (index mod int (length source)))"
proof -
  let ?n = "int (length source)"
  have n: "0 < ?n" using assms(1) by simp
  have r: "0 \<le> index mod ?n" "index mod ?n < ?n" using n by simp_all
  have "get source index = at_index source (index mod ?n)"
  proof -
    consider "index < 0" | "0 \<le> index" "index < ?n" | "?n \<le> index" by linarith
    then show ?thesis
    proof cases
      case 1 then show ?thesis using assms by (simp add: get_one_below)
    next
      case 2 then show ?thesis by (simp add: get_in_range)
    next
      case 3 then show ?thesis using assms by (simp add: get_above)
    qed
  qed
  then show ?thesis using r by (simp add: at_index_Some)
qed

lemma get_far_below:
  assumes "2 \<le> length source"
  shows "get source (- (int (length source) + 1)) = None"
proof -
  let ?n = "int (length source)"
  have n: "2 \<le> ?n" using assms by simp
  have "\<bar>- (?n + 1)\<bar> = ?n + 1" by simp
  then have "\<bar>- (?n + 1)\<bar> div ?n = (?n + 1) div ?n" by (simp only:)
  also have "\<dots> = 1" using n by (intro int_div_pos_eq [where r = 1]) auto
  finally have m: "max (\<bar>- (?n + 1)\<bar> div ?n) 1 = 1" by simp
  have ne: "source \<noteq> []" using assms by auto
  show ?thesis using m ne by (simp add: get_below at_index_neg)
qed

lemma window_general:
  assumes "source \<noteq> []" "0 \<le> start" "start < int (length source)"
          "0 \<le> r" "r < int (length source)"
  shows "slidingWindow source start r =
          map (\<lambda>p. Some (source ! nat (p mod int (length source)))) [start - r..start + r]"
proof -
  let ?n = "int (length source)"
  let ?f = "\<lambda>p. Some (source ! nat (p mod ?n))"
  have split: "[start - r..start + r] = [start - r..start - 1] @ start # [start + 1..start + r]"
    using assms(4) by (intro upto_split3) auto
  have left: "map (get source) [start - r..start - 1] = map ?f [start - r..start - 1]"
    using assms by (intro map_cong refl get_wraps) auto
  have right: "map (get source) [start + 1..start + r] = map ?f [start + 1..start + r]"
    using assms by (intro map_cong refl get_wraps) auto
  have center: "at_index source start = ?f start"
    using assms by (simp add: at_index_Some)
  show ?thesis
    unfolding slidingWindow_def range_list_def Let_def split
    using left right center by simp
qed

lemma window_undef:
  assumes "2 \<le> length source" "0 \<le> r" "start - r < - int (length source)"
  shows "None \<in> set (slidingWindow source start r)"
proof (cases "start < 0")
  case True
  then have "at_index source start = None" by (simp add: at_index_neg)
  then show ?thesis by (simp add: slidingWindow_def Let_def)
next
  case False
  let ?p = "- (int (length source) + 1)"
  have "?p \<in> set (range_list (start - r) (start - 1))"
    using assms False by (simp add: range_list_def)
  then have "get source ?p \<in> set (map (\<lambda>index. get source index) (range_list (start - r) (start - 1)))"
    by auto
  then show ?thesis using get_far_below [OF assms(1)]
    by (simp add: slidingWindow_def Let_def del: set_map)
qed

text \<open>
  C1: the five windows over \<open>[1,2,3,4,5]\<close> that the specification lists are what
  \<open>slidingWindow\<close> returns, and in general, for a non-empty source, a valid \<open>start\<close> and a
  radius below the length, the window is the list of the items at the positions
  \<open>start - r, ..., start + r\<close> in ascending order, each position wrapped modulo the length.
\<close>

theorem slidingWindow_wraps_circularly:
  "slidingWindow [1, 2, 3, 4, 5 :: int] 0 1 = [Some 5, Some 1, Some 2]
   \<and> slidingWindow [1, 2, 3, 4, 5 :: int] 4 1 = [Some 4, Some 5, Some 1]
   \<and> slidingWindow [1, 2, 3, 4, 5 :: int] 2 2 = [Some 1, Some 2, Some 3, Some 4, Some 5]
   \<and> slidingWindow [1, 2, 3, 4, 5 :: int] 1 2 = [Some 5, Some 1, Some 2, Some 3, Some 4]
   \<and> slidingWindow [1, 2, 3, 4, 5 :: int] 4 2 = [Some 3, Some 4, Some 5, Some 1, Some 2]
   \<and> (\<forall>(source :: 'a list) start r.
         source \<noteq> [] \<and> 0 \<le> start \<and> start < int (length source)
           \<and> 0 \<le> r \<and> r < int (length source)
         \<longrightarrow> slidingWindow source start r
               = map (\<lambda>p. Some (source ! nat (p mod int (length source)))) [start - r..start + r])"
proof -
  have e1: "slidingWindow [1, 2, 3, 4, 5 :: int] 0 1 = [Some 5, Some 1, Some 2]"
    by code_simp
  have e2: "slidingWindow [1, 2, 3, 4, 5 :: int] 4 1 = [Some 4, Some 5, Some 1]"
    by code_simp
  have e3: "slidingWindow [1, 2, 3, 4, 5 :: int] 2 2 = [Some 1, Some 2, Some 3, Some 4, Some 5]"
    by code_simp
  have e4: "slidingWindow [1, 2, 3, 4, 5 :: int] 1 2 = [Some 5, Some 1, Some 2, Some 3, Some 4]"
    by code_simp
  have e5: "slidingWindow [1, 2, 3, 4, 5 :: int] 4 2 = [Some 3, Some 4, Some 5, Some 1, Some 2]"
    by code_simp
  show ?thesis using e1 e2 e3 e4 e5 window_general by blast
qed

theorem slidingWindow_wraps_circularly_witness:
  "[10, 20, 30 :: int] \<noteq> [] \<and> (0 :: int) \<le> 2 \<and> (2 :: int) < int (length [10, 20, 30 :: int])
   \<and> slidingWindow [10, 20, 30 :: int] 2 2 = [Some 10, Some 20, Some 30, Some 10, Some 20]"
proof -
  have h: "[10, 20, 30 :: int] \<noteq> [] \<and> (0 :: int) \<le> 2 \<and> (2 :: int) < int (length [10, 20, 30 :: int])
           \<and> (0 :: int) \<le> 2 \<and> (2 :: int) < int (length [10, 20, 30 :: int])"
    by simp
  have "slidingWindow [10, 20, 30 :: int] 2 2
          = map (\<lambda>p. Some ([10, 20, 30 :: int] ! nat (p mod int (length [10, 20, 30 :: int]))))
              [2 - 2..2 + 2]"
    using slidingWindow_wraps_circularly [where ?'a = int] h by blast
  also have "\<dots> = [Some 10, Some 20, Some 30, Some 10, Some 20]"
    by code_simp
  finally show ?thesis by simp
qed

text \<open>
  C2: for every source (the empty one included), every start and every radius \<open>r \<ge> 0\<close>
  the window has exactly \<open>2 * r + 1\<close> entries; a short source gives repeated or undefined
  entries, never a shorter window.
\<close>

theorem slidingWindow_length:
  "0 \<le> r \<Longrightarrow> length (slidingWindow source start r) = nat (2 * r + 1)"
  by (simp add: slidingWindow_def range_list_def Let_def)

theorem slidingWindow_length_witness:
  "(0 :: int) \<le> 3 \<and> length (slidingWindow [1, 2 :: int] 0 3) = 7"
proof -
  have h: "(0 :: int) \<le> 3" by simp
  show ?thesis using h slidingWindow_length [OF h, of "[1, 2 :: int]" 0] by simp
qed

text \<open>
  C10, as the claim states it, fails for a source of one item: there every index is a
  multiple of the length, so the read at \<open>- (N + 1) = - 2\<close> is defined, and the window of
  radius 2, whose leftmost position \<open>- 2\<close> is below \<open>- N\<close>, has no undefined entry.
\<close>

theorem get_single_item_counterexample:
  "get [7 :: int] (- (int (length [7 :: int]) + 1)) = Some 7
   \<and> 0 - 2 < - int (length [7 :: int])
   \<and> None \<notin> set (slidingWindow [7 :: int] 0 2)"
  by code_simp

lemma get_singleton: "get [x] index = Some x"
proof -
  have "index + (if 0 < index then - 1 else 1) * max \<bar>index\<bar> 1 = 0" if "index \<noteq> 0"
    using that by (auto simp: max_def)
  then show ?thesis by (auto simp: get_def Let_def at_index_def)
qed

text \<open>
  C10 (amended): \<open>get\<close> is asymmetric. For every non-empty source of length \<open>N\<close> and every
  safe-integer index \<open>\<ge> - N\<close> it returns the item at \<open>index mod N\<close>. For every source of
  length \<open>N \<ge> 2\<close> the read at \<open>- (N + 1)\<close> is undefined, and every window (radius \<open>\<ge> 0\<close>,
  first and last position safe integers) whose leftmost position \<open>start - r\<close> is below
  \<open>- N\<close> contains an undefined entry. For a source of one item \<open>get\<close> returns that item at
  every safe-integer index.
\<close>

theorem get_asymmetric:
  "(\<forall>(source :: 'a list) index.
      source \<noteq> [] \<and> - int (length source) \<le> index \<and> isSafeInteger index
      \<longrightarrow> get source index = Some (source ! nat (index mod int (length source))))
   \<and> (\<forall>source :: 'a list.
        2 \<le> length source \<longrightarrow> get source (- (int (length source) + 1)) = None)
   \<and> (\<forall>(source :: 'a list) start r.
        2 \<le> length source \<and> 0 \<le> r \<and> start - r < - int (length source)
          \<and> isSafeInteger (start - r) \<and> isSafeInteger (start + r)
        \<longrightarrow> None \<in> set (slidingWindow source start r))
   \<and> (\<forall>(x :: 'a) index. isSafeInteger index \<longrightarrow> get [x] index = Some x)"
proof (intro conjI allI impI)
  fix source :: "'a list" and index :: int
  assume "source \<noteq> [] \<and> - int (length source) \<le> index \<and> isSafeInteger index"
  then show "get source index = Some (source ! nat (index mod int (length source)))"
    by (simp add: get_wraps)
next
  fix source :: "'a list"
  assume "2 \<le> length source"
  then show "get source (- (int (length source) + 1)) = None"
    by (rule get_far_below)
next
  fix source :: "'a list" and start r :: int
  assume "2 \<le> length source \<and> 0 \<le> r \<and> start - r < - int (length source)
          \<and> isSafeInteger (start - r) \<and> isSafeInteger (start + r)"
  then show "None \<in> set (slidingWindow source start r)"
    using window_undef [of source r start] by blast
next
  fix x :: 'a and index :: int
  show "get [x] index = Some x" by (rule get_singleton)
qed

theorem get_asymmetric_witness:
  "[7, 8 :: int] \<noteq> [] \<and> - int (length [7, 8 :: int]) \<le> 5 \<and> isSafeInteger 5
   \<and> get [7, 8 :: int] 5 = Some 8
   \<and> 2 \<le> length [7, 8 :: int] \<and> get [7, 8 :: int] (- 3) = None
   \<and> (0 :: int) \<le> 3 \<and> 0 - 3 < - int (length [7, 8 :: int])
   \<and> isSafeInteger (0 - 3) \<and> isSafeInteger (0 + 3)
   \<and> None \<in> set (slidingWindow [7, 8 :: int] 0 3)
   \<and> isSafeInteger (- 2) \<and> get [7 :: int] (- 2) = Some 7"
proof -
  have s: "isSafeInteger 5" "isSafeInteger (0 - 3)" "isSafeInteger (0 + 3)" "isSafeInteger (- 2)"
    by (simp_all add: isSafeInteger_def MAX_SAFE_INTEGER_def)
  have h1: "[7, 8 :: int] \<noteq> [] \<and> - int (length [7, 8 :: int]) \<le> 5 \<and> isSafeInteger 5"
    using s by simp
  have h2: "2 \<le> length [7, 8 :: int]" by simp
  have h3: "2 \<le> length [7, 8 :: int] \<and> (0 :: int) \<le> 3 \<and> 0 - 3 < - int (length [7, 8 :: int])
            \<and> isSafeInteger (0 - 3) \<and> isSafeInteger (0 + 3)"
    using s by simp
  have "get [7, 8 :: int] 5 = Some ([7, 8 :: int] ! nat (5 mod int (length [7, 8 :: int])))"
    using get_asymmetric [where ?'a = int, THEN conjunct1, rule_format, OF h1] .
  then have g1: "get [7, 8 :: int] 5 = Some 8" by simp
  have "get [7, 8 :: int] (- (int (length [7, 8 :: int]) + 1)) = None"
    using get_asymmetric [where ?'a = int, THEN conjunct2, THEN conjunct1, rule_format, OF h2] .
  then have g2: "get [7, 8 :: int] (- 3) = None" by simp
  have g3: "None \<in> set (slidingWindow [7, 8 :: int] 0 3)"
    using get_asymmetric [where ?'a = int, THEN conjunct2, THEN conjunct2, THEN conjunct1,
        rule_format, OF h3] .
  have g4: "get [7 :: int] (- 2) = Some 7"
    using get_asymmetric [where ?'a = int, THEN conjunct2, THEN conjunct2, THEN conjunct2,
        rule_format, OF s(4)] .
  show ?thesis using h1 h2 h3 g1 g2 g3 g4 s(4) by simp
qed

section \<open>Properties of the index mapper\<close>

text \<open>
  C9: whenever the strip has at least as many bullets as there are items
  (\<open>bullets \<ge> total\<close>), \<open>mapActiveIndex\<close> returns the index unchanged, for every index and
  every centre slot.
\<close>

theorem mapActiveIndex_identity:
  "bullets \<ge> total' \<Longrightarrow> mapActiveIndex index center bullets total' = index"
  by (simp add: mapActiveIndex_def)

theorem mapActiveIndex_identity_witness:
  "(5 :: int) \<ge> 3 \<and> mapActiveIndex 2 2 5 3 = 2"
proof -
  have h: "(5 :: int) \<ge> 3" by simp
  show ?thesis using h mapActiveIndex_identity [OF h, of 2 2] by simp
qed

lemma mapActiveIndex_odd_in_strip:
  assumes "1 \<le> bullets" "odd bullets \<or> total' \<le> bullets" "0 \<le> index" "index < total'"
  shows "0 \<le> mapActiveIndex index (bullets div 2) bullets total'
         \<and> mapActiveIndex index (bullets div 2) bullets total' < bullets"
proof (cases "total' \<le> bullets")
  case True
  then show ?thesis using assms by (simp add: mapActiveIndex_def)
next
  case False
  then have "odd bullets" using assms(2) by simp
  then obtain k where k: "bullets = 2 * k + 1" by (auto elim: oddE)
  then have c: "bullets div 2 = k" by simp
  have "0 \<le> k" using assms(1) k by simp
  then show ?thesis using False assms k unfolding c
    by (auto simp: mapActiveIndex_def max_def)
qed

text \<open>
  C3 says that for \<open>totalItems \<ge> 1\<close>, \<open>bulletCount \<ge> 1\<close>, the centre slot
  \<open>bulletCount div 2\<close> and an index in \<open>0 .. totalItems - 1\<close> the mapped slot lies in
  \<open>0 .. bulletCount - 1\<close>. The code does not do that for a strip with an even number of
  bullets that is shorter than the item range: with 2 bullets over 3 items the last index
  is mapped to slot 2, one past the last slot. (Lemma \<open>mapActiveIndex_odd_in_strip\<close> above
  is the statement for odd strips and for strips that show every item.)
\<close>

theorem mapActiveIndex_even_strip_overflows:
  "(3 :: int) \<ge> 1 \<and> (2 :: int) \<ge> 1 \<and> (0 :: int) \<le> 2 \<and> (2 :: int) \<le> 3 - 1
   \<and> mapActiveIndex 2 (2 div 2) 2 3 = 2
   \<and> \<not> mapActiveIndex 2 (2 div 2) 2 3 \<le> 2 - 1"
  by (simp add: mapActiveIndex_def)

text \<open>
  C4, as stated for every \<open>n \<ge> 1\<close>, fails for a strip of one bullet: slot \<open>n - 1\<close> is then
  slot 0, the test for slot 0 comes first, and with \<open>realIndex = 0\<close> the bullet is no edge
  although \<open>realIndex + 1 < total\<close>.
\<close>

theorem isEdgeBullet_single_slot_counterexample:
  "\<not> (isEdgeBullet (1 - 1) 0 1 5 \<longleftrightarrow> (0 :: int) + 1 < 5)"
  by (simp add: isEdgeBullet_def)

text \<open>
  C4 (amended): slot 0 is an edge exactly when \<open>realIndex \<noteq> 0\<close>; for a strip whose length
  \<open>n\<close> is not 1, slot \<open>n - 1\<close> is an edge exactly when \<open>realIndex + 1 < total\<close>; and every
  slot strictly between 0 and \<open>n - 1\<close> is no edge.
\<close>

theorem isEdgeBullet_cases:
  "(isEdgeBullet 0 realIndex n total' \<longleftrightarrow> realIndex \<noteq> 0)
   \<and> (n \<noteq> 1 \<longrightarrow> (isEdgeBullet (n - 1) realIndex n total' \<longleftrightarrow> realIndex + 1 < total'))
   \<and> (\<forall>i. 0 < i \<and> i < n - 1 \<longrightarrow> \<not> isEdgeBullet i realIndex n total')"
  by (auto simp: isEdgeBullet_def Let_def)

theorem isEdgeBullet_cases_witness:
  "(isEdgeBullet 0 3 5 10 \<longleftrightarrow> (3 :: int) \<noteq> 0)
   \<and> (5 :: int) \<noteq> 1 \<and> (isEdgeBullet (5 - 1) 3 5 10 \<longleftrightarrow> (3 :: int) + 1 < 10)
   \<and> (0 :: int) < 2 \<and> (2 :: int) < 5 - 1 \<and> \<not> isEdgeBullet 2 3 5 10"
proof -
  have h: "(5 :: int) \<noteq> 1" "(0 :: int) < 2 \<and> (2 :: int) < 5 - 1" by simp_all
  show ?thesis using h isEdgeBullet_cases [of 3 5 10] by blast
qed

section \<open>The bullets that a step keeps\<close>

lemma elem_setAttributes: "elem (setAttributes b a e pos) = elem b"
  by (simp add: setAttributes_def Let_def split: option.splits)

lemma elem_renderBullet: "elem (renderBullet p e i a ed) = e"
  by (simp add: renderBullet_def createElement_def elem_setAttributes)

lemma handle_removed: "handleBulletMovement p b i a s r = None \<longleftrightarrow> r = i"
  by (simp add: handleBulletMovement_def Let_def)

lemma handle_kept: "handleBulletMovement p b i a s r = Some b' \<Longrightarrow> elem b' = elem b"
  by (auto simp: handleBulletMovement_def Let_def elem_setAttributes split: if_splits)

lemma moved_elems:
  "map elem (List.map_filter (\<lambda>(i, b). handleBulletMovement p b (int i) a s r) (enumerate n spans))
     = map (elem \<circ> snd) (filter (\<lambda>(i, b). int i \<noteq> r) (enumerate n spans))"
proof (induction spans arbitrary: n)
  case Nil
  show ?case by (simp add: map_filter_simps)
next
  case (Cons b spans)
  show ?case
  proof (cases "handleBulletMovement p b (int n) a s r")
    case None
    then have "r = int n" by (simp add: handle_removed)
    then show ?thesis using None Cons.IH [of "Suc n"] by (simp add: map_filter_simps)
  next
    case (Some b')
    then have "r \<noteq> int n" using handle_removed [of p b "int n" a s r] by auto
    moreover have "elem b' = elem b" using Some by (rule handle_kept)
    ultimately show ?thesis using Some Cons.IH [of "Suc n"] by (simp add: map_filter_simps)
  qed
qed

lemma map_snd_enumerate_comp: "map (f \<circ> snd) (enumerate n xs) = map f xs"
  by (simp only: map_map [symmetric] map_snd_enumerate)

lemma kept_all:
  assumes "r < int n \<or> int (n + length spans) \<le> r"
  shows "filter (\<lambda>(i, b). int i \<noteq> r) (enumerate n spans) = enumerate n spans"
  using assms by (intro filter_True) (auto simp: in_set_enumerate_eq)

lemma kept_without_first:
  "map (elem \<circ> snd) (filter (\<lambda>(i, b). int i \<noteq> 0) (enumerate 0 spans)) = tl (map elem spans)"
proof (cases spans)
  case Nil
  then show ?thesis by simp
next
  case (Cons b bs)
  have "filter (\<lambda>(i, b). int i \<noteq> 0) (enumerate (Suc 0) bs) = enumerate (Suc 0) bs"
    by (rule kept_all) simp
  then show ?thesis using Cons by (simp add: map_snd_enumerate_comp)
qed

lemma kept_without_last:
  assumes "spans \<noteq> []"
  shows "map (elem \<circ> snd) (filter (\<lambda>(i, b). int i \<noteq> int (length spans) - 1) (enumerate 0 spans))
           = butlast (map elem spans)"
proof -
  obtain bs b where sp: "spans = bs @ [b]" using assms by (metis append_butlast_last_id)
  have "filter (\<lambda>(i, b). int i \<noteq> int (length bs)) (enumerate 0 bs) = enumerate 0 bs"
    by (rule kept_all) simp
  then show ?thesis using sp by (simp add: enumerate_append_eq map_snd_enumerate_comp)
qed

lemma kept_none_removed:
  "map (elem \<circ> snd) (filter (\<lambda>(i, b). int i \<noteq> - 1) (enumerate 0 spans)) = map elem spans"
proof -
  have "filter (\<lambda>(i, b). int i \<noteq> - 1) (enumerate 0 spans) = enumerate 0 spans"
    by (rule kept_all) simp
  then show ?thesis by (simp add: map_snd_enumerate_comp)
qed

lemma fresh_appended:
  fixes es :: "nat list"
  assumes "distinct es" "\<forall>e \<in> set es. e < n" "es \<noteq> []"
  shows "distinct (tl es @ [n])" "\<forall>x \<in> set (tl es @ [n]). x < Suc n"
        "length (tl es @ [n]) = length es"
  using assms by (cases es; auto simp: less_Suc_eq)+

lemma fresh_prepended:
  fixes es :: "nat list"
  assumes "distinct es" "\<forall>e \<in> set es. e < n" "es \<noteq> []"
  shows "distinct (n # butlast es)" "\<forall>x \<in> set (n # butlast es). x < Suc n"
        "length (n # butlast es) = length es"
proof -
  have "n \<notin> set (butlast es)" using assms(2) by (auto dest: in_set_butlastD)
  then show "distinct (n # butlast es)" using assms(1) by (simp add: distinct_butlast)
  show "\<forall>x \<in> set (n # butlast es). x < Suc n"
    using assms(2) by (auto simp: less_Suc_eq dest: in_set_butlastD)
  show "length (n # butlast es) = length es" using assms(3) by simp
qed

lemma set_minus_tl:
  fixes es :: "nat list"
  assumes "distinct es" "\<forall>e \<in> set es. e < n" "es \<noteq> []"
  shows "set es - set (tl es @ [n]) = {es ! 0}"
  using assms by (cases es) auto

lemma set_minus_butlast:
  fixes es :: "nat list"
  assumes "distinct es" "\<forall>e \<in> set es. e < n" "es \<noteq> []"
  shows "set es - set (n # butlast es) = {es ! (length es - 1)}"
proof -
  obtain bs b where es: "es = bs @ [b]" using assms(3) by (metis append_butlast_last_id)
  show ?thesis using assms(1,2) unfolding es by auto
qed

section \<open>One step of the pagination\<close>

lemma rewind_in_range: "0 \<le> edge \<Longrightarrow> 0 \<le> rewind i edge \<and> rewind i edge \<le> edge"
  by (simp add: rewind_def)

lemma rewind_back:
  assumes "0 \<le> c" "c < t"
  shows "rewind (rewind (c + 1) (t - 1) + - 1) (t - 1) = c"
  using assms by (simp add: rewind_def)

lemma rewind_next_mod:
  assumes "0 \<le> c" "c < t"
  shows "rewind (c + 1) (t - 1) = (c + 1) mod t"
proof (cases "c + 1 < t")
  case True
  then show ?thesis using assms by (simp add: rewind_def)
next
  case False
  then have "c + 1 = t" using assms by simp
  then show ?thesis by (simp add: rewind_def)
qed

lemma goTo_inactive: "\<not> isActive p \<Longrightarrow> goTo sign p = Inr p"
  by (simp add: goTo_def)

lemma goTo_next:
  assumes act: "isActive p" and rf: "ref p = Some spans"
  defines "c \<equiv> rewind (currentIndex p + 1) (totalSlides p - 1)"
  defines "ev \<equiv> (mapActiveIndex c (centerIndex p) (bulletsLength p) (totalSlides p) = centerIndex p
                   \<and> c - centerIndex p > 0)"
  shows "\<exists>spans'. goTo 1 p
            = Inr (p\<lparr>ref := Some spans', currentIndex := c,
                     nextElem := (if ev then nextElem p + 1 else nextElem p)\<rparr>)
          \<and> map elem spans'
            = (if ev then tl (map elem spans) @ [nextElem p] else map elem spans)"
proof (cases ev)
  case False
  let ?q = "p\<lparr>currentIndex := c\<rparr>"
  let ?moved = "List.map_filter (\<lambda>(index, b). handleBulletMovement ?q b (int index)
       (mapActiveIndex c (centerIndex p) (bulletsLength p) (totalSlides p)) 1 (- 1)) (enumerate 0 spans)"
  have "goTo 1 p = Inr (p\<lparr>ref := Some ?moved, currentIndex := c, nextElem := nextElem p\<rparr>)"
    using False act rf unfolding ev_def c_def by (auto simp: goTo_def Let_def)
  moreover have "map elem ?moved = map elem spans"
    by (simp only: moved_elems kept_none_removed)
  ultimately show ?thesis using False by (intro exI [of _ ?moved]) simp
next
  case True
  let ?q = "p\<lparr>currentIndex := c\<rparr>"
  let ?m = "mapActiveIndex c (centerIndex p) (bulletsLength p) (totalSlides p)"
  let ?moved = "List.map_filter (\<lambda>(index, b). handleBulletMovement ?q b (int index) ?m 1 0)
                  (enumerate 0 spans)"
  let ?i = "- 1 + bulletsLength p - 0"
  let ?b = "renderBullet ?q (nextElem p) ?i None
              (Some (isEdgeBullet ?i (getRealIndex ?i c ?m) (bulletsLength p) (totalSlides p)))"
  have "goTo 1 p = Inr (p\<lparr>ref := Some (?moved @ [?b]), currentIndex := c, nextElem := nextElem p + 1\<rparr>)"
    using True act rf unfolding ev_def c_def by (auto simp: goTo_def Let_def)
  moreover have "map elem (?moved @ [?b]) = tl (map elem spans) @ [nextElem p]"
    by (simp only: map_append moved_elems kept_without_first list.map elem_renderBullet)
  ultimately show ?thesis using True by (intro exI [of _ "?moved @ [?b]"]) simp
qed

lemma goTo_prev:
  assumes act: "isActive p" and rf: "ref p = Some spans"
    and len: "int (length spans) = bulletsLength p" and bl: "1 \<le> bulletsLength p"
  defines "c \<equiv> rewind (currentIndex p + - 1) (totalSlides p - 1)"
  defines "ev \<equiv> (mapActiveIndex c (centerIndex p) (bulletsLength p) (totalSlides p) = centerIndex p
                   \<and> c + centerIndex p + 1 < totalSlides p)"
  shows "\<exists>spans'. goTo (- 1) p
            = Inr (p\<lparr>ref := Some spans', currentIndex := c,
                     nextElem := (if ev then nextElem p + 1 else nextElem p)\<rparr>)
          \<and> map elem spans'
            = (if ev then nextElem p # butlast (map elem spans) else map elem spans)"
proof (cases ev)
  case False
  let ?q = "p\<lparr>currentIndex := c\<rparr>"
  let ?moved = "List.map_filter (\<lambda>(index, b). handleBulletMovement ?q b (int index)
       (mapActiveIndex c (centerIndex p) (bulletsLength p) (totalSlides p)) (- 1) (- 1)) (enumerate 0 spans)"
  have "goTo (- 1) p = Inr (p\<lparr>ref := Some ?moved, currentIndex := c, nextElem := nextElem p\<rparr>)"
    using False act rf unfolding ev_def c_def by (auto simp: goTo_def Let_def)
  moreover have "map elem ?moved = map elem spans"
    by (simp only: moved_elems kept_none_removed)
  ultimately show ?thesis using False by (intro exI [of _ ?moved]) simp
next
  case True
  have ne: "spans \<noteq> []" using len bl by auto
  let ?q = "p\<lparr>currentIndex := c\<rparr>"
  let ?m = "mapActiveIndex c (centerIndex p) (bulletsLength p) (totalSlides p)"
  let ?moved = "List.map_filter (\<lambda>(index, b). handleBulletMovement ?q b (int index) ?m (- 1)
                  (bulletsLength p - 1)) (enumerate 0 spans)"
  let ?i = "- 1 + bulletsLength p - (bulletsLength p - 1)"
  let ?b = "renderBullet ?q (nextElem p) ?i None
              (Some (isEdgeBullet ?i (getRealIndex ?i c ?m) (bulletsLength p) (totalSlides p)))"
  have "goTo (- 1) p = Inr (p\<lparr>ref := Some (?b # ?moved), currentIndex := c, nextElem := nextElem p + 1\<rparr>)"
    using True act rf unfolding ev_def c_def by (auto simp: goTo_def Let_def)
  moreover have "map elem (?b # ?moved) = nextElem p # butlast (map elem spans)"
    using ne unfolding len [symmetric]
    by (simp add: moved_elems kept_without_last elem_renderBullet)
  ultimately show ?thesis using True by (intro exI [of _ "?b # ?moved"]) simp
qed

lemma goTo_next_fields:
  assumes act: "isActive p" and rf: "ref p = Some spans" and ne: "spans \<noteq> []"
  shows "\<exists>p1 s1. goTo 1 p = Inr p1 \<and> ref p1 = Some s1 \<and> length s1 = length spans
           \<and> currentIndex p1 = rewind (currentIndex p + 1) (totalSlides p - 1)
           \<and> isActive p1 \<and> bulletsLength p1 = bulletsLength p
           \<and> totalSlides p1 = totalSlides p \<and> centerIndex p1 = centerIndex p"
proof -
  obtain spans' p1 where g: "goTo 1 p = Inr p1"
    and p1: "p1 = p\<lparr>ref := Some spans',
                    currentIndex := rewind (currentIndex p + 1) (totalSlides p - 1),
                    nextElem := nextElem p1\<rparr>"
    and e: "map elem spans' = tl (map elem spans) @ [nextElem p] \<or> map elem spans' = map elem spans"
    using goTo_next [OF act rf] by (auto split: if_splits)
  have "length (map elem spans') = length (map elem spans)"
    using e
  proof
    assume "map elem spans' = tl (map elem spans) @ [nextElem p]"
    then have "length (map elem spans') = length (tl (map elem spans) @ [nextElem p])"
      by (rule arg_cong)
    then show ?thesis using ne by simp
  next
    assume "map elem spans' = map elem spans"
    then show ?thesis by (rule arg_cong)
  qed
  then have l: "length spans' = length spans" by simp
  have "ref p1 = Some spans'" "currentIndex p1 = rewind (currentIndex p + 1) (totalSlides p - 1)"
    "isActive p1 = isActive p" "bulletsLength p1 = bulletsLength p"
    "totalSlides p1 = totalSlides p" "centerIndex p1 = centerIndex p"
    by (subst p1, simp)+
  then show ?thesis using g l act by blast
qed

lemma goTo_prev_fields:
  assumes act: "isActive p" and rf: "ref p = Some spans"
    and len: "int (length spans) = bulletsLength p" and bl: "1 \<le> bulletsLength p"
  shows "\<exists>p1 s1. goTo (- 1) p = Inr p1 \<and> ref p1 = Some s1 \<and> length s1 = length spans
           \<and> currentIndex p1 = rewind (currentIndex p + - 1) (totalSlides p - 1)
           \<and> isActive p1 \<and> bulletsLength p1 = bulletsLength p
           \<and> totalSlides p1 = totalSlides p \<and> centerIndex p1 = centerIndex p"
proof -
  have ne: "spans \<noteq> []" using len bl by auto
  obtain spans' p1 where g: "goTo (- 1) p = Inr p1"
    and p1: "p1 = p\<lparr>ref := Some spans',
                    currentIndex := rewind (currentIndex p + - 1) (totalSlides p - 1),
                    nextElem := nextElem p1\<rparr>"
    and e: "map elem spans' = nextElem p # butlast (map elem spans) \<or> map elem spans' = map elem spans"
    using goTo_prev [OF act rf len bl] by (auto split: if_splits)
  have "length (map elem spans') = length (map elem spans)"
    using e
  proof
    assume "map elem spans' = nextElem p # butlast (map elem spans)"
    then have "length (map elem spans') = length (nextElem p # butlast (map elem spans))"
      by (rule arg_cong)
    then show ?thesis using ne by simp
  next
    assume "map elem spans' = map elem spans"
    then show ?thesis by (rule arg_cong)
  qed
  then have l: "length spans' = length spans" by simp
  have "ref p1 = Some spans'" "currentIndex p1 = rewind (currentIndex p + - 1) (totalSlides p - 1)"
    "isActive p1 = isActive p" "bulletsLength p1 = bulletsLength p"
    "totalSlides p1 = totalSlides p" "centerIndex p1 = centerIndex p"
    by (subst p1, simp)+
  then show ?thesis using g l act by blast
qed

section \<open>The invariant of the reachable states\<close>

lemma render_elems:
  "map elem (map (\<lambda>(k, index). renderBullet p (n + k) index (f index) (g index)) (enumerate m xs))
     = map (\<lambda>k. n + k) [m..<m + length xs]"
proof (induction xs arbitrary: m)
  case Nil
  show ?case by simp
next
  case (Cons x xs)
  have "m < m + length (x # xs)" by simp
  then have "[m..<m + length (x # xs)] = m # [Suc m..<m + length (x # xs)]"
    by (rule upt_conv_Cons)
  then have "[m..<m + length (x # xs)] = m # [Suc m..<Suc m + length xs]"
    by simp
  then show ?case using Cons.IH [of "Suc m"] by (simp add: elem_renderBullet)
qed

lemma render_inactive:
  "\<not> isActive p \<or> totalSlides p < 2 \<Longrightarrow> render p = p\<lparr>isActive := False\<rparr>"
  by (simp add: render_def)

lemma render_active:
  assumes "isActive p" "2 \<le> totalSlides p"
  shows "\<exists>spans. render p = p\<lparr>ref := Some spans, attached := True,
                     nextElem := nextElem p + 1 + length spans\<rparr>
          \<and> length spans = nat (min (bulletsLength p) (totalSlides p))
          \<and> map elem spans = map (\<lambda>k. nextElem p + 1 + k) [0..<length spans]"
proof -
  let ?ix = "range_list 0 (min (bulletsLength p) (totalSlides p) - 1)"
  let ?spans = "map (\<lambda>(k, index). renderBullet p (nextElem p + 1 + k) index
                    (Some (index = currentIndex p))
                    (Some (isEdgeBullet index index (bulletsLength p) (totalSlides p))))
                 (enumerate 0 ?ix)"
  have l: "length ?spans = length ?ix" by simp
  have "render p = p\<lparr>ref := Some ?spans, attached := True,
                     nextElem := nextElem p + 1 + length ?spans\<rparr>"
    using assms unfolding l by (simp add: render_def Let_def)
  moreover have "length ?spans = nat (min (bulletsLength p) (totalSlides p))"
    unfolding l by (simp add: range_list_def)
  moreover have "map elem ?spans = map (\<lambda>k. nextElem p + 1 + k) [0..<length ?spans]"
    unfolding l using render_elems [of p "nextElem p + 1" "\<lambda>index. Some (index = currentIndex p)"
        "\<lambda>index. Some (isEdgeBullet index index (bulletsLength p) (totalSlides p))" 0 ?ix]
    by simp
  ultimately show ?thesis by blast
qed

lemma constructor_fields:
  "centerIndex (constructor found created t opts) = bulletsLength (constructor found created t opts) div 2"
  "bulletsLength (constructor found created t opts) \<le> t"
  "totalSlides (constructor found created t opts) = t"
  "currentIndex (constructor found created t opts) = 0"
  "ref (constructor found created t opts) = found"
  "nextElem (constructor found created t opts) = created"
  "attached (constructor found created t opts) = False"
  by (simp_all add: constructor_def Let_def)

lemma strip_ok_render: "strip_ok (render (constructor found created t opts))"
proof -
  let ?p = "constructor found created t opts"
  show ?thesis
  proof (cases "isActive ?p \<and> 2 \<le> totalSlides ?p")
    case False
    then have "render ?p = ?p\<lparr>isActive := False\<rparr>" by (intro render_inactive) auto
    then show ?thesis by (simp add: strip_ok_def constructor_fields)
  next
    case True
    then obtain spans where r: "render ?p = ?p\<lparr>ref := Some spans, attached := True,
                     nextElem := nextElem ?p + 1 + length spans\<rparr>"
      and l: "length spans = nat (min (bulletsLength ?p) (totalSlides ?p))"
      and e: "map elem spans = map (\<lambda>k. nextElem ?p + 1 + k) [0..<length spans]"
      using render_active [of ?p] by blast
    have d: "distinct (map elem spans)" unfolding e by (simp add: distinct_map inj_on_def)
    have b: "\<forall>x \<in> set (map elem spans). x < nextElem ?p + 1 + length spans"
      unfolding e by auto
    have "1 \<le> bulletsLength ?p \<Longrightarrow> int (length spans) = bulletsLength ?p"
      using l constructor_fields(2) [of found created t opts] by (simp add: constructor_fields)
    then show ?thesis using True d b unfolding r
      by (simp add: strip_ok_def constructor_fields)
  qed
qed

lemma strip_ok_goTo:
  assumes ok: "strip_ok p" and sg: "sign = 1 \<or> sign = - 1" and g: "goTo sign p = Inr p'"
  shows "strip_ok p' \<and> totalSlides p' = totalSlides p \<and> bulletsLength p' = bulletsLength p
         \<and> centerIndex p' = centerIndex p \<and> isActive p' = isActive p"
proof (cases "isActive p")
  case False
  then have "p' = p" using g by (simp add: goTo_inactive)
  then show ?thesis using ok by simp
next
  case True
  then obtain spans where rf: "ref p = Some spans" 
    and cur: "0 \<le> currentIndex p" "currentIndex p < totalSlides p"
    and st: "1 \<le> bulletsLength p \<Longrightarrow> int (length spans) = bulletsLength p
                      \<and> distinct (map elem spans)
                      \<and> (\<forall>e \<in> set (map elem spans). e < nextElem p)"
    using ok by (auto simp: strip_ok_def)
  have edge: "0 \<le> totalSlides p - 1" using cur by simp
  have c: "0 \<le> rewind (currentIndex p + sign) (totalSlides p - 1)"
          "rewind (currentIndex p + sign) (totalSlides p - 1) < totalSlides p"
    using rewind_in_range [OF edge, of "currentIndex p + sign"] by simp_all
  show ?thesis
  proof (cases "1 \<le> bulletsLength p")
    case bl: True
    note st' = st [OF bl]
    have ne: "map elem spans \<noteq> []" using st' bl by auto
    from sg show ?thesis
    proof
      assume s: "sign = 1"
      obtain spans' where
        p': "p' = p\<lparr>ref := Some spans', currentIndex := rewind (currentIndex p + 1) (totalSlides p - 1),
                     nextElem := (if mapActiveIndex (rewind (currentIndex p + 1) (totalSlides p - 1)) (centerIndex p) (bulletsLength p) (totalSlides p) = centerIndex p
                   \<and> rewind (currentIndex p + 1) (totalSlides p - 1) - centerIndex p > 0 then nextElem p + 1 else nextElem p)\<rparr>"
        and e: "map elem spans' = (if mapActiveIndex (rewind (currentIndex p + 1) (totalSlides p - 1)) (centerIndex p) (bulletsLength p) (totalSlides p) = centerIndex p
                   \<and> rewind (currentIndex p + 1) (totalSlides p - 1) - centerIndex p > 0 then tl (map elem spans) @ [nextElem p] else map elem spans)"
        using goTo_next [OF True rf] g unfolding s by auto
      note f = fresh_appended [of "map elem spans" "nextElem p"]
      have l: "length (map elem spans') = length (map elem spans)"
        unfolding e using f(3) st' ne by presburger
      have d: "distinct (map elem spans')"
        unfolding e using f(1) st' ne by presburger
      have "\<forall>x \<in> set (map elem spans). x < Suc (nextElem p)"
        using st' by (auto simp: less_Suc_eq)
      then have b: "\<forall>x \<in> set (map elem spans'). x < nextElem p'"
        unfolding e p' using f(2) st' ne by (simp del: set_map set_append)
      show ?thesis using ok c l d b st' True unfolding s
        by (simp add: strip_ok_def p')
    next
      assume s: "sign = - 1"
      obtain spans' where
        p': "p' = p\<lparr>ref := Some spans', currentIndex := rewind (currentIndex p + - 1) (totalSlides p - 1),
                     nextElem := (if mapActiveIndex (rewind (currentIndex p + - 1) (totalSlides p - 1)) (centerIndex p) (bulletsLength p) (totalSlides p) = centerIndex p
                   \<and> rewind (currentIndex p + - 1) (totalSlides p - 1) + centerIndex p + 1 < totalSlides p then nextElem p + 1 else nextElem p)\<rparr>"
        and e: "map elem spans' = (if mapActiveIndex (rewind (currentIndex p + - 1) (totalSlides p - 1)) (centerIndex p) (bulletsLength p) (totalSlides p) = centerIndex p
                   \<and> rewind (currentIndex p + - 1) (totalSlides p - 1) + centerIndex p + 1 < totalSlides p then nextElem p # butlast (map elem spans) else map elem spans)"
        using goTo_prev [OF True rf _ bl] st' g unfolding s by auto
      note f = fresh_prepended [of "map elem spans" "nextElem p"]
      have l: "length (map elem spans') = length (map elem spans)"
        unfolding e using f(3) st' ne by presburger
      have d: "distinct (map elem spans')"
        unfolding e using f(1) st' ne by presburger
      have "\<forall>x \<in> set (map elem spans). x < Suc (nextElem p)"
        using st' by (auto simp: less_Suc_eq)
      then have b: "\<forall>x \<in> set (map elem spans'). x < nextElem p'"
        unfolding e p' using f(2) st' ne by (simp del: set_map set_simps)
      show ?thesis using ok c l d b st' True unfolding s
        by (simp add: strip_ok_def p')
    qed
  next
    case bl: False
    have "\<exists>spans'. ref p' = Some spans' \<and> currentIndex p' = rewind (currentIndex p + sign) (totalSlides p - 1)
        \<and> totalSlides p' = totalSlides p \<and> bulletsLength p' = bulletsLength p
         \<and> centerIndex p' = centerIndex p \<and> isActive p' = isActive p"
      using g True rf by (auto simp: goTo_def Let_def split: if_splits)
    then show ?thesis using ok c bl True by (auto simp: strip_ok_def)
  qed
qed

lemma reachable_strip_ok:
  "reachable t opts p \<Longrightarrow> strip_ok p \<and> totalSlides p = t"
proof (induction rule: reachable.induct)
  case (rendered found created)
  show ?case using strip_ok_render [of found created t opts]
    by (simp add: render_def constructor_fields Let_def)
next
  case (after_next p p')
  then show ?case using strip_ok_goTo [of p 1 p'] by (simp add: pagination_next_def)
next
  case (after_prev p p')
  then show ?case using strip_ok_goTo [of p "- 1" p'] by (simp add: pagination_prev_def)
qed

lemma reachable_calls:
  "reachable t opts p \<Longrightarrow> calls cs p = Inr p' \<Longrightarrow> reachable t opts p'"
proof (induction cs arbitrary: p)
  case Nil
  then show ?case by simp
next
  case (Cons c cs)
  show ?case
  proof (cases c)
    case True
    then obtain q where q: "pagination_next p = Inr q" "calls cs q = Inr p'"
      using Cons.prems(2) by (auto split: sum.splits)
    have "reachable t opts q" using Cons.prems(1) q(1) by (rule reachable.after_next)
    then show ?thesis using q(2) by (rule Cons.IH)
  next
    case False
    then obtain q where q: "pagination_prev p = Inr q" "calls cs q = Inr p'"
      using Cons.prems(2) by (auto split: sum.splits)
    have "reachable t opts q" using Cons.prems(1) q(1) by (rule reachable.after_prev)
    then show ?thesis using q(2) by (rule Cons.IH)
  qed
qed

lemma after_two_next:
  "calls [True, True]
     (render (constructor None 0 10 \<lparr>opt_diameter = None, opt_bullets = None, opt_isActive = None\<rparr>))
   = Inr (projr (calls [True, True]
     (render (constructor None 0 10 \<lparr>opt_diameter = None, opt_bullets = None, opt_isActive = None\<rparr>))))"
  by code_simp

lemma after_two_next_fields:
  "isActive (projr (calls [True, True]
     (render (constructor None 0 10 \<lparr>opt_diameter = None, opt_bullets = None, opt_isActive = None\<rparr>))))"
  "bulletsLength (projr (calls [True, True]
     (render (constructor None 0 10 \<lparr>opt_diameter = None, opt_bullets = None, opt_isActive = None\<rparr>)))) = 5"
  "currentIndex (projr (calls [True, True]
     (render (constructor None 0 10 \<lparr>opt_diameter = None, opt_bullets = None, opt_isActive = None\<rparr>)))) = 2"
  "totalSlides (projr (calls [True, True]
     (render (constructor None 0 10 \<lparr>opt_diameter = None, opt_bullets = None, opt_isActive = None\<rparr>)))) = 10"
  "centerIndex (projr (calls [True, True]
     (render (constructor None 0 10 \<lparr>opt_diameter = None, opt_bullets = None, opt_isActive = None\<rparr>)))) = 2"
  "map elem (the (ref (projr (calls [True, True]
     (render (constructor None 0 10 \<lparr>opt_diameter = None, opt_bullets = None, opt_isActive = None\<rparr>))))))
     = [1, 2, 3, 4, 5]"
  "realIndices (projr (calls [True, True]
     (render (constructor None 0 10 \<lparr>opt_diameter = None, opt_bullets = None, opt_isActive = None\<rparr>))))
     = [0, 1, 2, 3, 4]"
  "map_sum id realIndices (pagination_next (projr (calls [True, True]
     (render (constructor None 0 10 \<lparr>opt_diameter = None, opt_bullets = None, opt_isActive = None\<rparr>)))))
     = Inr [1, 2, 3, 4, 5]"
  by code_simp+

section \<open>Properties of the pagination steps\<close>

text \<open>
  C5, as stated for every step, fails for a strip without slots: a pagination built with
  \<open>bullets: 0\<close> over 3 slides is active with an empty strip; its first \<open>next\<close> reaches
  index 1, where the mapped slot is the centre slot 0 and \<open>currentIndex - centerIndex > 0\<close>,
  so the claim's condition holds, but no bullet leaves the strip: the step only appends a
  new one.
\<close>

theorem goTo_empty_strip_counterexample:
  "reachable 3 \<lparr>opt_diameter = None, opt_bullets = Some 0, opt_isActive = None\<rparr>
     (render (constructor None 0 3 \<lparr>opt_diameter = None, opt_bullets = Some 0, opt_isActive = None\<rparr>))
   \<and> isActive (render (constructor None 0 3 \<lparr>opt_diameter = None, opt_bullets = Some 0, opt_isActive = None\<rparr>))
   \<and> ref (render (constructor None 0 3 \<lparr>opt_diameter = None, opt_bullets = Some 0, opt_isActive = None\<rparr>))
       = Some []
   \<and> goTo 1 (render (constructor None 0 3 \<lparr>opt_diameter = None, opt_bullets = Some 0, opt_isActive = None\<rparr>))
       = Inr
        \<lparr>ref = Some [\<lparr>elem = 1, activeClass = False, edgeClass = True,
                        translateX = Some (- 16)\<rparr>],
         currentIndex = 1, centerIndex = 0, bulletsLength = 0, diameter = 16,
         isActive = True, totalSlides = 3, attached = True, nextElem = 2\<rparr>
   \<and> mapActiveIndex 1 0 0 3 = 0 \<and> (1 :: int) - 0 > 0"
proof -
  have "reachable 3 \<lparr>opt_diameter = None, opt_bullets = Some 0, opt_isActive = None\<rparr>
     (render (constructor None 0 3 \<lparr>opt_diameter = None, opt_bullets = Some 0, opt_isActive = None\<rparr>))"
    by (rule reachable.rendered)
  moreover have "isActive (render (constructor None 0 3 \<lparr>opt_diameter = None, opt_bullets = Some 0, opt_isActive = None\<rparr>))
   \<and> ref (render (constructor None 0 3 \<lparr>opt_diameter = None, opt_bullets = Some 0, opt_isActive = None\<rparr>))
       = Some []
   \<and> goTo 1 (render (constructor None 0 3 \<lparr>opt_diameter = None, opt_bullets = Some 0, opt_isActive = None\<rparr>))
       = Inr
        \<lparr>ref = Some [\<lparr>elem = 1, activeClass = False, edgeClass = True,
                        translateX = Some (- 16)\<rparr>],
         currentIndex = 1, centerIndex = 0, bulletsLength = 0, diameter = 16,
         isActive = True, totalSlides = 3, attached = True, nextElem = 2\<rparr>
   \<and> mapActiveIndex 1 0 0 3 = 0 \<and> (1 :: int) - 0 > 0"
    by code_simp
  ultimately show ?thesis by blast
qed

text \<open>
  C5 (amended): in every step \<open>_goTo sign\<close> with \<open>sign\<close> 1 or -1 from a reachable active state whose
  strip has at least one slot, the step succeeds, the current index is the circular
  successor or predecessor, and the bullets that leave the strip are: exactly the bullet
  at slot 0 (for \<open>sign = 1\<close>) or at slot \<open>bulletsLength - 1\<close> (for \<open>sign = - 1\<close>) when the new
  active slot is the centre slot and \<open>currentIndex - centerIndex > 0\<close> (for \<open>sign = 1\<close>) or
  \<open>currentIndex + centerIndex + 1 < totalSlides\<close> (for \<open>sign = - 1\<close>) holds for the new
  current index; and none otherwise.
\<close>

theorem goTo_evicts_exactly_when:
  assumes r: "reachable total' opts p" and act: "isActive p" and bl: "1 \<le> bulletsLength p"
    and sg: "sign = 1 \<or> sign = - 1"
  shows "\<exists>p' spans spans'.
           goTo sign p = Inr p' \<and> ref p = Some spans \<and> ref p' = Some spans'
           \<and> currentIndex p' = rewind (currentIndex p + sign) (totalSlides p - 1)
           \<and> set (map elem spans) - set (map elem spans')
               = (if activeSlot p' = centerIndex p'
                     \<and> (if sign = 1 then currentIndex p' - centerIndex p' > 0
                         else currentIndex p' + centerIndex p' + 1 < totalSlides p')
                  then {elem (spans ! (if sign = 1 then 0 else nat (bulletsLength p - 1)))}
                  else {})"
proof -
  have ok: "strip_ok p" using reachable_strip_ok [OF r] by simp
  then obtain spans where rf: "ref p = Some spans"
    and len: "int (length spans) = bulletsLength p"
    and d: "distinct (map elem spans)"
    and b: "\<forall>e \<in> set (map elem spans). e < nextElem p"
    using act bl by (auto simp: strip_ok_def)
  have ne: "map elem spans \<noteq> []" using len bl by auto
  have n0: "0 < length spans" using ne by simp
  from sg show ?thesis
  proof
    assume s: "sign = 1"
    let ?c = "rewind (currentIndex p + 1) (totalSlides p - 1)"
    let ?ev = "mapActiveIndex ?c (centerIndex p) (bulletsLength p) (totalSlides p) = centerIndex p
                 \<and> ?c - centerIndex p > 0"
    obtain spans' where
      g: "goTo 1 p = Inr (p\<lparr>ref := Some spans', currentIndex := ?c,
                     nextElem := (if ?ev then nextElem p + 1 else nextElem p)\<rparr>)"
      and e: "map elem spans' = (if ?ev then tl (map elem spans) @ [nextElem p] else map elem spans)"
      using goTo_next [OF act rf] by blast
    let ?p' = "p\<lparr>ref := Some spans', currentIndex := ?c,
                     nextElem := (if ?ev then nextElem p + 1 else nextElem p)\<rparr>"
    have "set (map elem spans) - set (map elem spans')
            = (if ?ev then {elem (spans ! 0)} else {})"
      unfolding e using set_minus_tl [OF d b ne] n0 by (simp del: set_map set_append)
    then have "set (map elem spans) - set (map elem spans')
               = (if activeSlot ?p' = centerIndex ?p'
                     \<and> (if sign = 1 then currentIndex ?p' - centerIndex ?p' > 0
                         else currentIndex ?p' + centerIndex ?p' + 1 < totalSlides ?p')
                  then {elem (spans ! (if sign = 1 then 0 else nat (bulletsLength p - 1)))}
                  else {})"
      unfolding s by (simp add: activeSlot_def del: set_map)
    then show ?thesis using g rf unfolding s by (intro exI [of _ ?p'] exI [of _ spans] exI [of _ spans']) simp
  next
    assume s: "sign = - 1"
    let ?c = "rewind (currentIndex p + - 1) (totalSlides p - 1)"
    let ?ev = "mapActiveIndex ?c (centerIndex p) (bulletsLength p) (totalSlides p) = centerIndex p
                 \<and> ?c + centerIndex p + 1 < totalSlides p"
    obtain spans' where
      g: "goTo (- 1) p = Inr (p\<lparr>ref := Some spans', currentIndex := ?c,
                     nextElem := (if ?ev then nextElem p + 1 else nextElem p)\<rparr>)"
      and e: "map elem spans' = (if ?ev then nextElem p # butlast (map elem spans) else map elem spans)"
      using goTo_prev [OF act rf len bl] by blast
    let ?p' = "p\<lparr>ref := Some spans', currentIndex := ?c,
                     nextElem := (if ?ev then nextElem p + 1 else nextElem p)\<rparr>"
    have ix: "nat (bulletsLength p - 1) = length spans - 1" using len [symmetric] n0 by simp
    have "map elem spans ! (length (map elem spans) - 1) = elem (spans ! (length spans - 1))"
      using n0 by simp
    then have "set (map elem spans) - set (map elem spans')
            = (if ?ev then {elem (spans ! (length spans - 1))} else {})"
      unfolding e using set_minus_butlast [OF d b ne] by (simp del: set_map set_simps)
    then have "set (map elem spans) - set (map elem spans')
               = (if activeSlot ?p' = centerIndex ?p'
                     \<and> (if sign = 1 then currentIndex ?p' - centerIndex ?p' > 0
                         else currentIndex ?p' + centerIndex ?p' + 1 < totalSlides ?p')
                  then {elem (spans ! (if sign = 1 then 0 else nat (bulletsLength p - 1)))}
                  else {})"
      unfolding s ix by (simp add: activeSlot_def del: set_map)
    then show ?thesis using g rf unfolding s by (intro exI [of _ ?p'] exI [of _ spans] exI [of _ spans']) simp
  qed
qed

theorem goTo_evicts_exactly_when_witness:
  "reachable 10 \<lparr>opt_diameter = None, opt_bullets = None, opt_isActive = None\<rparr>
     (projr (calls [True, True]
       (render (constructor None 0 10 \<lparr>opt_diameter = None, opt_bullets = None, opt_isActive = None\<rparr>))))
   \<and> isActive (projr (calls [True, True]
       (render (constructor None 0 10 \<lparr>opt_diameter = None, opt_bullets = None, opt_isActive = None\<rparr>))))
   \<and> 1 \<le> bulletsLength (projr (calls [True, True]
       (render (constructor None 0 10 \<lparr>opt_diameter = None, opt_bullets = None, opt_isActive = None\<rparr>))))
   \<and> (\<exists>p' spans spans'.
         goTo 1 (projr (calls [True, True]
           (render (constructor None 0 10 \<lparr>opt_diameter = None, opt_bullets = None, opt_isActive = None\<rparr>))))
           = Inr p'
         \<and> ref (projr (calls [True, True]
           (render (constructor None 0 10 \<lparr>opt_diameter = None, opt_bullets = None, opt_isActive = None\<rparr>))))
           = Some spans
         \<and> ref p' = Some spans' \<and> currentIndex p' = 3
         \<and> map elem spans = [1, 2, 3, 4, 5]
         \<and> set (map elem spans) - set (map elem spans') = {1})"
proof -
  let ?o = "\<lparr>opt_diameter = None, opt_bullets = None, opt_isActive = None\<rparr>"
  let ?p = "projr (calls [True, True] (render (constructor None 0 10 ?o)))"
  note f = after_two_next_fields
  have r: "reachable 10 ?o ?p"
    using reachable.rendered after_two_next by (rule reachable_calls)
  have a: "isActive ?p" by (rule f(1))
  have b: "1 \<le> bulletsLength ?p" unfolding f(2) by simp
  have s: "(1 :: int) = 1 \<or> (1 :: int) = - 1" by simp
  obtain p' spans spans' where g: "goTo 1 ?p = Inr p'" "ref ?p = Some spans" "ref p' = Some spans'"
    and c: "currentIndex p' = rewind (currentIndex ?p + 1) (totalSlides ?p - 1)"
    and e: "set (map elem spans) - set (map elem spans')
               = (if activeSlot p' = centerIndex p'
                     \<and> (if (1 :: int) = 1 then currentIndex p' - centerIndex p' > 0
                         else currentIndex p' + centerIndex p' + 1 < totalSlides p')
                  then {elem (spans ! (if (1 :: int) = 1 then 0 else nat (bulletsLength ?p - 1)))}
                  else {})"
    using goTo_evicts_exactly_when [OF r a b s] by blast
  have c3: "currentIndex p' = 3" using c unfolding f by (simp add: rewind_def)
  have st: "totalSlides p' = 10" "centerIndex p' = 2" "bulletsLength p' = 5"
    using strip_ok_goTo [OF _ s g(1)] reachable_strip_ok [OF r] f by simp_all
  have m: "activeSlot p' = 2" unfolding activeSlot_def c3 st by (simp add: mapActiveIndex_def)
  have es: "map elem spans = [1, 2, 3, 4, 5]" using f(6) g(2) by simp
  then have "map elem spans ! 0 = 1" by simp
  moreover have "0 < length spans" using arg_cong [OF es, of length] by simp
  ultimately have e0: "elem (spans ! 0) = 1" by simp
  have d: "set (map elem spans) - set (map elem spans') = {1}"
    using e e0 unfolding m c3 st by (simp del: set_map)
  have ex: "\<exists>p' spans spans'. goTo 1 ?p = Inr p' \<and> ref ?p = Some spans
         \<and> ref p' = Some spans' \<and> currentIndex p' = 3
         \<and> map elem spans = [1, 2, 3, 4, 5]
         \<and> set (map elem spans) - set (map elem spans') = {1}"
    by (rule exI [of _ p'], rule exI [of _ spans], rule exI [of _ spans'])
       (intro conjI g c3 es d)
  show ?thesis by (intro conjI r a b ex)
qed

lemma third_next_evicts_first_bullet:
  "map_sum id (\<lambda>p. (currentIndex p, activeSlot p, map elem (the (ref p)), realIndices p))
     (calls [True, True]
       (render (constructor None 0 10 \<lparr>opt_diameter = None, opt_bullets = None, opt_isActive = None\<rparr>)))
     = Inr (2, 2, [1, 2, 3, 4, 5], [0, 1, 2, 3, 4])
   \<and> map_sum id (\<lambda>p. (currentIndex p, activeSlot p, map elem (the (ref p)), realIndices p))
     (calls [True, True, True]
       (render (constructor None 0 10 \<lparr>opt_diameter = None, opt_bullets = None, opt_isActive = None\<rparr>)))
     = Inr (3, 2, [2, 3, 4, 5, 6], [1, 2, 3, 4, 5])"
  by code_simp

text \<open>
  C7, as stated for every reachable state, fails for a strip without slots: a pagination
  built with \<open>bullets: 0\<close> over 3 slides renders no bullet, \<open>next\<close> appends one and the
  following \<open>prev\<close> prepends another, so the strip stands for no real index before the two
  calls and for the real indices 0 and 1 after them.
\<close>

theorem next_prev_empty_strip_counterexample:
  "reachable 3 \<lparr>opt_diameter = None, opt_bullets = Some 0, opt_isActive = None\<rparr>
     (render (constructor None 0 3 \<lparr>opt_diameter = None, opt_bullets = Some 0, opt_isActive = None\<rparr>))
   \<and> (2 :: int) \<le> 3
   \<and> realIndices (render (constructor None 0 3 \<lparr>opt_diameter = None, opt_bullets = Some 0, opt_isActive = None\<rparr>))
       = []
   \<and> pagination_next (render (constructor None 0 3 \<lparr>opt_diameter = None, opt_bullets = Some 0, opt_isActive = None\<rparr>))
       = Inr
        \<lparr>ref = Some [\<lparr>elem = 1, activeClass = False, edgeClass = True,
                        translateX = Some (- 16)\<rparr>],
         currentIndex = 1, centerIndex = 0, bulletsLength = 0, diameter = 16,
         isActive = True, totalSlides = 3, attached = True, nextElem = 2\<rparr>
   \<and> pagination_prev
        \<lparr>ref = Some [\<lparr>elem = 1, activeClass = False, edgeClass = True,
                        translateX = Some (- 16)\<rparr>],
         currentIndex = 1, centerIndex = 0, bulletsLength = 0, diameter = 16,
         isActive = True, totalSlides = 3, attached = True, nextElem = 2\<rparr>
       = Inr
        \<lparr>ref = Some [\<lparr>elem = 2, activeClass = False, edgeClass = False,
                        translateX = Some 0\<rparr>,
                      \<lparr>elem = 1, activeClass = True, edgeClass = False,
                        translateX = Some (- 16)\<rparr>],
         currentIndex = 0, centerIndex = 0, bulletsLength = 0, diameter = 16,
         isActive = True, totalSlides = 3, attached = True, nextElem = 3\<rparr>
   \<and> realIndices
        \<lparr>ref = Some [\<lparr>elem = 2, activeClass = False, edgeClass = False,
                        translateX = Some 0\<rparr>,
                      \<lparr>elem = 1, activeClass = True, edgeClass = False,
                        translateX = Some (- 16)\<rparr>],
         currentIndex = 0, centerIndex = 0, bulletsLength = 0, diameter = 16,
         isActive = True, totalSlides = 3, attached = True, nextElem = 3\<rparr>
       = [0, 1]"
proof -
  have "reachable 3 \<lparr>opt_diameter = None, opt_bullets = Some 0, opt_isActive = None\<rparr>
     (render (constructor None 0 3 \<lparr>opt_diameter = None, opt_bullets = Some 0, opt_isActive = None\<rparr>))"
    by (rule reachable.rendered)
  moreover have "(2 :: int) \<le> 3
   \<and> realIndices (render (constructor None 0 3 \<lparr>opt_diameter = None, opt_bullets = Some 0, opt_isActive = None\<rparr>))
       = []
   \<and> pagination_next (render (constructor None 0 3 \<lparr>opt_diameter = None, opt_bullets = Some 0, opt_isActive = None\<rparr>))
       = Inr
        \<lparr>ref = Some [\<lparr>elem = 1, activeClass = False, edgeClass = True,
                        translateX = Some (- 16)\<rparr>],
         currentIndex = 1, centerIndex = 0, bulletsLength = 0, diameter = 16,
         isActive = True, totalSlides = 3, attached = True, nextElem = 2\<rparr>
   \<and> pagination_prev
        \<lparr>ref = Some [\<lparr>elem = 1, activeClass = False, edgeClass = True,
                        translateX = Some (- 16)\<rparr>],
         currentIndex = 1, centerIndex = 0, bulletsLength = 0, diameter = 16,
         isActive = True, totalSlides = 3, attached = True, nextElem = 2\<rparr>
       = Inr
        \<lparr>ref = Some [\<lparr>elem = 2, activeClass = False, edgeClass = False,
                        translateX = Some 0\<rparr>,
                      \<lparr>elem = 1, activeClass = True, edgeClass = False,
                        translateX = Some (- 16)\<rparr>],
         currentIndex = 0, centerIndex = 0, bulletsLength = 0, diameter = 16,
         isActive = True, totalSlides = 3, attached = True, nextElem = 3\<rparr>
   \<and> realIndices
        \<lparr>ref = Some [\<lparr>elem = 2, activeClass = False, edgeClass = False,
                        translateX = Some 0\<rparr>,
                      \<lparr>elem = 1, activeClass = True, edgeClass = False,
                        translateX = Some (- 16)\<rparr>],
         currentIndex = 0, centerIndex = 0, bulletsLength = 0, diameter = 16,
         isActive = True, totalSlides = 3, attached = True, nextElem = 3\<rparr>
       = [0, 1]"
    by code_simp
  ultimately show ?thesis by blast
qed

text \<open>
  C7 (amended): from every reachable state of a pagination over at least 2 slides whose strip has at
  least one slot, \<open>next\<close> followed by \<open>prev\<close> succeeds and restores the current index and
  the real indices that the strip represents.
\<close>

theorem next_then_prev_restores:
  assumes r: "reachable total' opts p" and t: "2 \<le> total'" and bl: "1 \<le> bulletsLength p"
  shows "\<exists>p1 p2. pagination_next p = Inr p1 \<and> pagination_prev p1 = Inr p2
           \<and> currentIndex p2 = currentIndex p
           \<and> realIndices p2 = realIndices p"
proof (cases "isActive p")
  case False
  then show ?thesis by (simp add: pagination_next_def pagination_prev_def goTo_inactive)
next
  case act: True
  have ok: "strip_ok p" using reachable_strip_ok [OF r] by simp
  then obtain spans where rf: "ref p = Some spans"
    and len: "int (length spans) = bulletsLength p"
    and cur: "0 \<le> currentIndex p" "currentIndex p < totalSlides p"
    using act bl by (auto simp: strip_ok_def)
  have ne: "spans \<noteq> []" using len bl by auto
  obtain s1 p1 where g1: "goTo 1 p = Inr p1" and rf1: "ref p1 = Some s1"
    and c1: "currentIndex p1 = rewind (currentIndex p + 1) (totalSlides p - 1)"
    and st1: "isActive p1" "bulletsLength p1 = bulletsLength p" "totalSlides p1 = totalSlides p"
             "centerIndex p1 = centerIndex p"
    and l1: "length s1 = length spans"
    using goTo_next_fields [OF act rf ne] by blast
  have len1: "int (length s1) = bulletsLength p1" using l1 len st1 by simp
  have bl1: "1 \<le> bulletsLength p1" using bl st1 by simp
  obtain s2 p2 where g2: "goTo (- 1) p1 = Inr p2" and rf2: "ref p2 = Some s2"
    and c2: "currentIndex p2 = rewind (currentIndex p1 + - 1) (totalSlides p1 - 1)"
    and st2: "bulletsLength p2 = bulletsLength p1" "totalSlides p2 = totalSlides p1"
             "centerIndex p2 = centerIndex p1"
    and l2: "length s2 = length s1"
    using goTo_prev_fields [OF st1(1) rf1 len1 bl1] by blast
  have c: "currentIndex p2 = currentIndex p"
    unfolding c2 c1 st1 using rewind_back [OF cur] by simp
  have "realIndices p2 = realIndices p"
    using rf rf2 l1 l2 c st1 st2 by (simp add: realIndices_def activeSlot_def)
  then show ?thesis using g1 g2 c by (simp add: pagination_next_def pagination_prev_def)
qed

theorem next_then_prev_restores_witness:
  "reachable 10 \<lparr>opt_diameter = None, opt_bullets = None, opt_isActive = None\<rparr>
     (projr (calls [True, True]
       (render (constructor None 0 10 \<lparr>opt_diameter = None, opt_bullets = None, opt_isActive = None\<rparr>))))
   \<and> (2 :: int) \<le> 10
   \<and> 1 \<le> bulletsLength (projr (calls [True, True]
       (render (constructor None 0 10 \<lparr>opt_diameter = None, opt_bullets = None, opt_isActive = None\<rparr>))))
   \<and> (\<exists>p1 p2.
         pagination_next (projr (calls [True, True]
           (render (constructor None 0 10 \<lparr>opt_diameter = None, opt_bullets = None, opt_isActive = None\<rparr>))))
           = Inr p1
         \<and> realIndices p1 = [1, 2, 3, 4, 5]
         \<and> pagination_prev p1 = Inr p2
         \<and> currentIndex p2 = 2
         \<and> realIndices p2 = [0, 1, 2, 3, 4])"
proof -
  let ?o = "\<lparr>opt_diameter = None, opt_bullets = None, opt_isActive = None\<rparr>"
  let ?p = "projr (calls [True, True] (render (constructor None 0 10 ?o)))"
  note f = after_two_next_fields
  have r: "reachable 10 ?o ?p"
    using reachable.rendered after_two_next by (rule reachable_calls)
  have t: "(2 :: int) \<le> 10" by simp
  have b: "1 \<le> bulletsLength ?p" unfolding f(2) by simp
  obtain p1 p2 where n: "pagination_next ?p = Inr p1" and q: "pagination_prev p1 = Inr p2"
    and c: "currentIndex p2 = currentIndex ?p" and i: "realIndices p2 = realIndices ?p"
    using next_then_prev_restores [OF r t b] by blast
  have i1: "realIndices p1 = [1, 2, 3, 4, 5]" using f(8) unfolding n by simp
  have c2: "currentIndex p2 = 2" using c unfolding f(3) .
  have i2: "realIndices p2 = [0, 1, 2, 3, 4]" using i unfolding f(7) .
  have ex: "\<exists>p1 p2. pagination_next ?p = Inr p1 \<and> realIndices p1 = [1, 2, 3, 4, 5]
         \<and> pagination_prev p1 = Inr p2 \<and> currentIndex p2 = 2
         \<and> realIndices p2 = [0, 1, 2, 3, 4]"
    by (rule exI [of _ p1], rule exI [of _ p2]) (intro conjI n i1 q c2 i2)
  show ?thesis by (intro conjI r t b ex)
qed

lemma calls_inactive: "\<not> isActive p \<Longrightarrow> calls cs p = Inr p"
  by (induction cs) (simp_all add: pagination_next_def pagination_prev_def goTo_inactive)

text \<open>
  C8: with fewer than 2 slides \<open>render\<close> only clears \<open>isActive\<close>: it creates no element,
  leaves \<open>_ref\<close> as the constructor found it and attaches nothing; and every sequence of
  \<open>next\<close> and \<open>prev\<close> calls after it returns the state unchanged.
\<close>

theorem inactive_below_two_slides:
  assumes "total' < 2"
  shows "render (constructor found created total' opts)
           = (constructor found created total' opts)\<lparr>isActive := False\<rparr>
         \<and> ref (render (constructor found created total' opts)) = found
         \<and> nextElem (render (constructor found created total' opts)) = created
         \<and> \<not> attached (render (constructor found created total' opts))
         \<and> \<not> isActive (render (constructor found created total' opts))
         \<and> (\<forall>cs. calls cs (render (constructor found created total' opts))
                    = Inr (render (constructor found created total' opts)))"
proof -
  let ?p = "constructor found created total' opts"
  have r: "render ?p = ?p\<lparr>isActive := False\<rparr>"
    using assms by (intro render_inactive) (simp add: constructor_fields)
  have "\<not> isActive (render ?p)" unfolding r by simp
  then have "\<forall>cs. calls cs (render ?p) = Inr (render ?p)" by (simp add: calls_inactive)
  then show ?thesis using r by (simp add: constructor_fields)
qed

theorem inactive_below_two_slides_witness:
  "(1 :: int) < 2
   \<and> ref (render (constructor None 0 1 \<lparr>opt_diameter = None, opt_bullets = None, opt_isActive = None\<rparr>)) = None
   \<and> nextElem (render (constructor None 0 1 \<lparr>opt_diameter = None, opt_bullets = None, opt_isActive = None\<rparr>)) = 0
   \<and> calls [True, False, True]
        (render (constructor None 0 1 \<lparr>opt_diameter = None, opt_bullets = None, opt_isActive = None\<rparr>))
       = Inr (render (constructor None 0 1 \<lparr>opt_diameter = None, opt_bullets = None, opt_isActive = None\<rparr>))"
proof -
  have h: "(1 :: int) < 2" by simp
  show ?thesis
    using h inactive_below_two_slides [OF h, of None 0
        "\<lparr>opt_diameter = None, opt_bullets = None, opt_isActive = None\<rparr>"]
    by blast
qed

lemma strip_contains_current:
  assumes ok: "strip_ok p" and act: "isActive p" and bl: "1 \<le> bulletsLength p"
    and odd: "odd (bulletsLength p) \<or> totalSlides p \<le> bulletsLength p"
  shows "currentIndex p \<in> set (realIndices p)"
proof -
  obtain spans where rf: "ref p = Some spans"
    and len: "int (length spans) = bulletsLength p"
    and cur: "0 \<le> currentIndex p" "currentIndex p < totalSlides p"
    and ctr: "centerIndex p = bulletsLength p div 2"
    using ok act bl by (auto simp: strip_ok_def)
  have a: "0 \<le> activeSlot p" "activeSlot p < bulletsLength p"
    using mapActiveIndex_odd_in_strip [OF bl odd cur] by (simp_all add: activeSlot_def ctr)
  then have "nat (activeSlot p) \<in> set [0..<length spans]" using len by simp
  moreover have "getRealIndex (int (nat (activeSlot p))) (currentIndex p) (activeSlot p) = currentIndex p"
    using a by (simp add: getRealIndex_def)
  ultimately have "currentIndex p \<in> (\<lambda>i. getRealIndex (int i) (currentIndex p) (activeSlot p)) ` set [0..<length spans]"
    by (metis image_eqI)
  then show ?thesis using rf by (simp add: realIndices_def)
qed

lemma next_iterated:
  assumes "strip_ok p" "isActive p" "1 \<le> bulletsLength p"
  shows "\<exists>p'. calls (replicate k True) p = Inr p' \<and> strip_ok p' \<and> isActive p'
           \<and> bulletsLength p' = bulletsLength p \<and> totalSlides p' = totalSlides p
           \<and> currentIndex p' = (currentIndex p + int k) mod totalSlides p"
  using assms
proof (induction k arbitrary: p)
  case 0
  then show ?case by (auto simp: strip_ok_def)
next
  case (Suc k)
  obtain spans where rf: "ref p = Some spans"
    and len: "int (length spans) = bulletsLength p"
    and cur: "0 \<le> currentIndex p" "currentIndex p < totalSlides p"
    using Suc.prems by (auto simp: strip_ok_def)
  have ne: "spans \<noteq> []" using len Suc.prems(3) by auto
  obtain p1 where g: "goTo 1 p = Inr p1"
    and c1: "currentIndex p1 = rewind (currentIndex p + 1) (totalSlides p - 1)"
    and f1: "isActive p1" "bulletsLength p1 = bulletsLength p" "totalSlides p1 = totalSlides p"
    using goTo_next_fields [OF Suc.prems(2) rf ne] by blast
  have ok1: "strip_ok p1" using strip_ok_goTo [OF Suc.prems(1) _ g] by simp
  have bl1: "1 \<le> bulletsLength p1" using f1 Suc.prems(3) by simp
  obtain p' where c: "calls (replicate k True) p1 = Inr p'" and ok': "strip_ok p'" "isActive p'"
    and f': "bulletsLength p' = bulletsLength p1" "totalSlides p' = totalSlides p1"
    and cur': "currentIndex p' = (currentIndex p1 + int k) mod totalSlides p1"
    using Suc.IH [OF ok1 f1(1) bl1] by blast
  have "currentIndex p' = ((currentIndex p + 1) mod totalSlides p + int k) mod totalSlides p"
    unfolding cur' c1 f1 using rewind_next_mod [OF cur] by simp
  also have "\<dots> = (currentIndex p + 1 + int k) mod totalSlides p"
    by (rule mod_add_left_eq)
  also have "\<dots> = (currentIndex p + int (Suc k)) mod totalSlides p"
    by (simp add: add.assoc)
  finally have "currentIndex p' = (currentIndex p + int (Suc k)) mod totalSlides p" .
  moreover have "calls (replicate (Suc k) True) p = Inr p'"
    using g c by (simp add: pagination_next_def)
  ultimately show ?case using ok' f' f1 by simp
qed

lemma next_cycle_odd_strip:
  assumes r: "reachable total' opts p" and act: "isActive p" and bl: "1 \<le> bulletsLength p"
    and odd: "odd (bulletsLength p) \<or> totalSlides p \<le> bulletsLength p"
  shows "(\<exists>p'. calls (replicate (nat total') True) p = Inr p' \<and> currentIndex p' = currentIndex p)
       \<and> (\<forall>k. \<exists>p'. calls (replicate k True) p = Inr p' \<and> currentIndex p' \<in> set (realIndices p'))"
proof -
  have ok: "strip_ok p" and t: "totalSlides p = total'" using reachable_strip_ok [OF r] by simp_all
  have cur: "0 \<le> currentIndex p" "currentIndex p < total'"
    using ok act t by (auto simp: strip_ok_def)
  have "\<exists>p'. calls (replicate (nat total') True) p = Inr p' \<and> currentIndex p' = currentIndex p"
  proof -
    obtain p' where c: "calls (replicate (nat total') True) p = Inr p'"
      and e: "currentIndex p' = (currentIndex p + int (nat total')) mod totalSlides p"
      using next_iterated [OF ok act bl, of "nat total'"] by blast
    have "currentIndex p' = currentIndex p" unfolding e t using cur by simp
    then show ?thesis using c by blast
  qed
  moreover have "\<exists>p'. calls (replicate k True) p = Inr p' \<and> currentIndex p' \<in> set (realIndices p')" for k
  proof -
    obtain p' where c: "calls (replicate k True) p = Inr p'"
      and f: "strip_ok p'" "isActive p'" "bulletsLength p' = bulletsLength p" "totalSlides p' = totalSlides p"
      using next_iterated [OF ok act bl, of k] by blast
    have "currentIndex p' \<in> set (realIndices p')"
      using strip_contains_current [OF f(1,2)] bl odd f(3,4) by simp
    then show ?thesis using c by blast
  qed
  ultimately show ?thesis by blast
qed

lemma reachable_bulletsLength:
  "reachable t opts p \<Longrightarrow>
     bulletsLength p = min t (case opt_bullets opts of None \<Rightarrow> 5 | Some b \<Rightarrow> b)"
proof (induction rule: reachable.induct)
  case (rendered found created)
  show ?case by (simp add: render_def constructor_def Let_def)
next
  case (after_next p p')
  have "strip_ok p" using reachable_strip_ok [OF after_next.hyps(1)] by simp
  then have "bulletsLength p' = bulletsLength p"
    using strip_ok_goTo [of p 1 p'] after_next.hyps(2) by (simp add: pagination_next_def)
  then show ?case using after_next.IH by simp
next
  case (after_prev p p')
  have "strip_ok p" using reachable_strip_ok [OF after_prev.hyps(1)] by simp
  then have "bulletsLength p' = bulletsLength p"
    using strip_ok_goTo [of p "- 1" p'] after_prev.hyps(2) by (simp add: pagination_prev_def)
  then show ?case using after_prev.IH by simp
qed

lemma next_cycle_default_strip:
  assumes r: "reachable total' opts p" and act: "isActive p" and dflt: "opt_bullets opts = None"
  shows "(\<exists>p'. calls (replicate (nat total') True) p = Inr p' \<and> currentIndex p' = currentIndex p)
       \<and> (\<forall>k. \<exists>p'. calls (replicate k True) p = Inr p' \<and> currentIndex p' \<in> set (realIndices p'))"
proof -
  have ok: "strip_ok p" and t: "totalSlides p = total'" using reachable_strip_ok [OF r] by simp_all
  have "0 < total'" using ok act t by (auto simp: strip_ok_def)
  moreover have b: "bulletsLength p = min total' 5"
    using reachable_bulletsLength [OF r] dflt by simp
  ultimately have "1 \<le> bulletsLength p" "odd (bulletsLength p) \<or> totalSlides p \<le> bulletsLength p"
    unfolding t by (auto simp: min_def)
  then show ?thesis using next_cycle_odd_strip [OF r act] by blast
qed

text \<open>
  C6 says that after every \<open>next\<close> step the real indices of the strip contain the current
  index. The code does not do that for an even strip shorter than the item range: a
  pagination of 2 bullets over 3 slides is, after two \<open>next\<close> calls, at index 2 with active
  slot 2, and its two bullets stand for the real indices 0 and 1. (Lemma
  \<open>next_cycle_odd_strip\<close> above is the statement for odd strips and for strips that show
  every item, and \<open>next_cycle_default_strip\<close> for the default of 5 bullets.)
\<close>

theorem even_strip_loses_current_index:
  "map_sum id (\<lambda>p. (currentIndex p, activeSlot p, map elem (the (ref p)), realIndices p))
     (calls [True, True]
       (render (constructor None 0 3 \<lparr>opt_diameter = None, opt_bullets = Some 2, opt_isActive = None\<rparr>)))
     = Inr (2, 2, [1, 2], [0, 1])"
  by code_simp

theorem even_strip_loses_current_index_witness:
  "\<exists>p. calls [True, True]
         (render (constructor None 0 3
            \<lparr>opt_diameter = None, opt_bullets = Some 2, opt_isActive = None\<rparr>)) = Inr p
       \<and> currentIndex p = 2 \<and> realIndices p = [0, 1]
       \<and> currentIndex p \<notin> set (realIndices p)"
proof -
  let ?r = "calls [True, True]
         (render (constructor None 0 3
            \<lparr>opt_diameter = None, opt_bullets = Some 2, opt_isActive = None\<rparr>))"
  obtain p where "?r = Inr p"
    and "(currentIndex p, activeSlot p, map elem (the (ref p)), realIndices p)
           = (2, 2, [1, 2], [0, 1])"
    using even_strip_loses_current_index by (cases ?r) auto
  then show ?thesis by auto
qed

end
